theory Spec2Isabelle
  imports Main "HOL-Library.Word"
begin

section \<open>Hashes, node identifiers and their hexadecimal form\<close>

text \<open>
  \<^verbatim>\<open>common.Hash\<close> is a 32-byte array and \<^verbatim>\<open>discover.NodeID\<close> a 64-byte array; both are
  read as big-endian numbers of 256 and 512 bits. Two arrays are equal exactly when the
  words are. \<^verbatim>\<open>Hash.Hex()\<close> is \<^verbatim>\<open>"0x"\<close> followed by the 64 lower-case hexadecimal digits
  of the bytes, and \<^verbatim>\<open>fmt.Sprintf("%x", id[:])\<close> the 128 digits of a node identifier.
\<close>

type_synonym hash = "256 word"
type_synonym NodeID = "512 word"

definition hexdigit :: "nat \<Rightarrow> char" where
  "hexdigit d = (if d < 10 then char_of (48 + d) else char_of (87 + d))"

fun hexn :: "nat \<Rightarrow> nat \<Rightarrow> string" where
  "hexn 0 v = []"
| "hexn (Suc k) v = hexn k (v div 16) @ [hexdigit (v mod 16)]"

definition Hex :: "hash \<Rightarrow> string" where
  "Hex h = ''0x'' @ hexn 64 (unat h)"

section \<open>Errors\<close>

text \<open>
  The error codes of \<^verbatim>\<open>peer.go\<close>, in the order of the \<^verbatim>\<open>iota\<close> block. An \<^verbatim>\<open>error\<close> is one of
  the three registry errors, an \<^verbatim>\<open>errResp\<close> of a code (the formatted text is left out),
  the read timeout of the p2p package, or an error the transport reported. A run-time
  panic is not an error value: it is a result of its own.
\<close>

datatype errCode =
    ErrMsgTooLarge
  | ErrDecode
  | ErrInvalidMsgCode
  | ErrProtocolVersionMismatch
  | ErrNetworkIdMismatch
  | ErrGenesisBlockMismatch
  | ErrNoStatusMsg
  | ErrExtraStatusMsg
  | ErrSuspendedPeer

datatype error =
    errClosed
  | errAlreadyRegistered
  | errNotRegistered
  | errResp errCode
  | DiscReadTimeout
  | TransportError nat

datatype panic = NilDereference | IndexOutOfRange

section \<open>Protocol constants and messages\<close>

definition ProtocolMaxMsgSize :: "32 word" where
  "ProtocolMaxMsgSize = 10 * 1024 * 1024"

definition StatusMsg :: "64 word" where "StatusMsg = 0x00"
definition NewBlockHashesMsg :: "64 word" where "NewBlockHashesMsg = 0x01"
definition TxMsg :: "64 word" where "TxMsg = 0x02"
definition NewBlockMsg :: "64 word" where "NewBlockMsg = 0x07"

definition maxKnownTxs :: nat where "maxKnownTxs = 32768"
definition maxKnownBlocks :: nat where "maxKnownBlocks = 1024"

text \<open>A \<^verbatim>\<open>*big.Int\<close> is \<open>None\<close> when the pointer is nil.\<close>

record statusData =
  ProtocolVersion :: "32 word"
  NetworkId :: "64 word"
  TD :: "int option"
  CurrentBlock :: hash
  GenesisBlock :: hash

text \<open>
  An inbound \<^verbatim>\<open>p2p.Msg\<close>: its code, its declared size, and what \<^verbatim>\<open>msg.Decode\<close> yields for a
  status target (\<open>None\<close> when decoding fails). The codec itself is outside the repository.
\<close>

record Msg =
  Code :: "64 word"
  Size :: "32 word"
  Payload :: "statusData option"

section \<open>The known-hash sets\<close>

text \<open>
  \<^verbatim>\<open>set.Set\<close> (gopkg.in/fatih/set.v0) is a hash set over a Go map. It is modelled as the
  list of its members without repetition. \<^verbatim>\<open>Pop\<close> deletes the first item the map iteration
  yields, which Go leaves unspecified: \<open>pick\<close> chooses the position, and every function
  \<open>pick\<close> is a possible run.
\<close>

type_synonym hashset = "hash list"

definition set_New :: hashset where
  "set_New = []"

definition set_Add :: "hashset \<Rightarrow> hash \<Rightarrow> hashset" where
  "set_Add s h = (if h \<in> set s then s else s @ [h])"

definition set_Has :: "hashset \<Rightarrow> hash \<Rightarrow> bool" where
  "set_Has s h = (h \<in> set s)"

definition set_Size :: "hashset \<Rightarrow> nat" where
  "set_Size s = length s"

definition set_Pop :: "(hashset \<Rightarrow> nat) \<Rightarrow> hashset \<Rightarrow> hashset" where
  "set_Pop pick s =
     (if s = [] then s
      else take (pick s mod length s) s @ drop (Suc (pick s mod length s)) s)"

section \<open>Peer\<close>

text \<open>
  The fields of \<^verbatim>\<open>Peer\<close> that the functions below read or write. \<^verbatim>\<open>P\<close>, \<^verbatim>\<open>rw\<close>, \<^verbatim>\<open>forkDrop\<close>
  and \<^verbatim>\<open>lock\<close> are handles of the transport and the scheduler; what the transport answers
  is a parameter of each function that talks to it.
\<close>

record Peer =
  peer_id :: string
  peer_genesis :: hash
  version :: "32 word"
  head :: hash
  td :: "int option"
  knownTxs :: hashset
  knownBlocks :: hashset

definition NewPeer :: "32 word \<Rightarrow> NodeID \<Rightarrow> Peer" where
  "NewPeer v nid =
     \<lparr> peer_id = hexn 128 (unat nid),
       peer_genesis = 0,
       version = v,
       head = 0,
       td = Some 0,
       knownTxs = set_New,
       knownBlocks = set_New \<rparr>"

definition Head :: "Peer \<Rightarrow> hash \<times> int option" where
  "Head p = (case td p of None \<Rightarrow> (head p, None) | Some t \<Rightarrow> (head p, Some t))"

text \<open>
  \<^verbatim>\<open>SetHead\<close> copies the hash first and then calls \<^verbatim>\<open>p.td.Set(td)\<close>, which dereferences both
  pointers.
\<close>

definition SetHead :: "Peer \<Rightarrow> hash \<Rightarrow> int option \<Rightarrow> Peer \<times> panic option" where
  "SetHead p h t =
     (case td p of
        None \<Rightarrow> (p\<lparr>head := h\<rparr>, Some NilDereference)
      | Some _ \<Rightarrow>
          (case t of
             None \<Rightarrow> (p\<lparr>head := h\<rparr>, Some NilDereference)
           | Some v \<Rightarrow> (p\<lparr>head := h, td := Some v\<rparr>, None)))"

definition SetGenesis :: "Peer \<Rightarrow> hash \<Rightarrow> Peer" where
  "SetGenesis p g = p\<lparr>peer_genesis := g\<rparr>"

definition Genesis :: "Peer \<Rightarrow> hash" where
  "Genesis p = peer_genesis p"

subsection \<open>Handshake\<close>

text \<open>
  \<^verbatim>\<open>readStatus\<close>: \<open>rd\<close> is what \<^verbatim>\<open>p.rw.ReadMsg()\<close> returns. The function returns the status
  variable as it leaves it (written by a successful decode only) and its error.
\<close>

definition readStatus ::
  "Peer \<Rightarrow> error + Msg \<Rightarrow> 64 word \<Rightarrow> statusData \<Rightarrow> hash \<Rightarrow> statusData \<times> error option" where
  "readStatus p rd network status gen =
     (case rd of
        Inl err \<Rightarrow> (status, Some err)
      | Inr msg \<Rightarrow>
          if Code msg \<noteq> StatusMsg then (status, Some (errResp ErrNoStatusMsg))
          else if Size msg > ProtocolMaxMsgSize then (status, Some (errResp ErrMsgTooLarge))
          else
            (case Payload msg of
               None \<Rightarrow> (status, Some (errResp ErrDecode))
             | Some s \<Rightarrow>
                 if GenesisBlock s \<noteq> gen then (s, Some (errResp ErrGenesisBlockMismatch))
                 else if NetworkId s \<noteq> network then (s, Some (errResp ErrNetworkIdMismatch))
                 else if ProtocolVersion s \<noteq> version p
                   then (s, Some (errResp ErrProtocolVersionMismatch))
                 else (s, None)))"

text \<open>
  What is handed to \<^verbatim>\<open>p2p.Send\<close>: the message code and the payload. The transport's answer
  to a send is the function \<open>wr\<close>.
\<close>

record announce =
  Hash :: hash
  Number :: "64 word"

record Transaction =
  tx_Hash :: hash

record Block =
  block_Hash :: hash

datatype packet =
    StatusPacket statusData
  | NewBlockHashesPacket "announce list"
  | TxPacket "Transaction list"
  | NewBlockPacket Block "int option"

type_synonym MsgWriter = "64 word \<Rightarrow> packet \<Rightarrow> error option"

definition Send :: "MsgWriter \<Rightarrow> 64 word \<Rightarrow> packet \<Rightarrow> error option" where
  "Send wr code data = wr code data"

text \<open>
  The two goroutines of \<^verbatim>\<open>Handshake\<close> each put one value on \<^verbatim>\<open>errc\<close>; the select loop takes
  two values or the timer. \<open>order\<close> says which goroutine's value arrives first and \<open>timer\<close>
  how many values the loop receives before the timer wins a select (two or more: it never
  does). These are all the runs the scheduler allows.
\<close>

datatype arrival = SendFirst | ReadFirst

fun await :: "nat \<Rightarrow> error option list \<Rightarrow> error option" where
  "await timer [] = None"
| "await timer (e # es) =
     (if timer = 0 then Some DiscReadTimeout
      else (case e of Some err \<Rightarrow> Some err | None \<Rightarrow> await (timer - 1) es))"

definition zero_status :: statusData where
  "zero_status =
     \<lparr> ProtocolVersion = 0, NetworkId = 0, TD = None, CurrentBlock = 0, GenesisBlock = 0 \<rparr>"

definition Handshake ::
  "Peer \<Rightarrow> 64 word \<Rightarrow> int option \<Rightarrow> hash \<Rightarrow> hash \<Rightarrow> MsgWriter \<Rightarrow> error + Msg \<Rightarrow> arrival \<Rightarrow> nat
     \<Rightarrow> Peer \<times> error option" where
  "Handshake p network td0 head0 gen wr rd order timer =
     (let sent = Send wr StatusMsg
                   (StatusPacket \<lparr> ProtocolVersion = version p, NetworkId = network, TD = td0,
                                    CurrentBlock = head0, GenesisBlock = gen \<rparr>);
          (status, rerr) = readStatus p rd network zero_status gen;
          errc = (case order of SendFirst \<Rightarrow> [sent, rerr] | ReadFirst \<Rightarrow> [rerr, sent])
      in case await timer errc of
           Some err \<Rightarrow> (p, Some err)
         | None \<Rightarrow> (p\<lparr>td := TD status, head := CurrentBlock status\<rparr>, None))"

subsection \<open>Marking and sending\<close>

text \<open>
  The eviction loops of \<^verbatim>\<open>MarkBlock\<close> and \<^verbatim>\<open>MarkTransaction\<close>: pop while the set holds at
  least the maximum.
\<close>

lemma drop_nth_shrinks: "i < length s \<Longrightarrow> length (take i s @ drop (Suc i) s) < length s"
  by simp

lemma set_Pop_shrinks:
  assumes "0 < length s"
  shows "length (set_Pop pick s) < length s"
proof -
  from assms have "s \<noteq> []" by simp
  then have eq:
    "set_Pop pick s = take (pick s mod length s) s @ drop (Suc (pick s mod length s)) s"
    by (simp add: set_Pop_def)
  from assms have "pick s mod length s < length s" by simp
  then show ?thesis unfolding eq by (rule drop_nth_shrinks)
qed

function MarkBlock_evict :: "(hashset \<Rightarrow> nat) \<Rightarrow> hashset \<Rightarrow> hashset" where
  "MarkBlock_evict pick s =
     (if set_Size s \<ge> maxKnownBlocks then MarkBlock_evict pick (set_Pop pick s) else s)"
  by pat_completeness auto
termination
  by (relation "measure (\<lambda>(pick, s). length s)")
     (auto simp: set_Size_def maxKnownBlocks_def intro!: set_Pop_shrinks)

declare MarkBlock_evict.simps [simp del]

function MarkTransaction_evict :: "(hashset \<Rightarrow> nat) \<Rightarrow> hashset \<Rightarrow> hashset" where
  "MarkTransaction_evict pick s =
     (if set_Size s \<ge> maxKnownTxs then MarkTransaction_evict pick (set_Pop pick s) else s)"
  by pat_completeness auto
termination
  by (relation "measure (\<lambda>(pick, s). length s)")
     (auto simp: set_Size_def maxKnownTxs_def intro!: set_Pop_shrinks)

declare MarkTransaction_evict.simps [simp del]

definition MarkBlock :: "(hashset \<Rightarrow> nat) \<Rightarrow> Peer \<Rightarrow> hash \<Rightarrow> Peer" where
  "MarkBlock pick p h = p\<lparr>knownBlocks := set_Add (MarkBlock_evict pick (knownBlocks p)) h\<rparr>"

definition MarkTransaction :: "(hashset \<Rightarrow> nat) \<Rightarrow> Peer \<Rightarrow> hash \<Rightarrow> Peer" where
  "MarkTransaction pick p h =
     p\<lparr>knownTxs := set_Add (MarkTransaction_evict pick (knownTxs p)) h\<rparr>"

text \<open>
  The senders return the peer as they leave it and what \<^verbatim>\<open>p2p.Send\<close> returns. They add to
  the known set with \<^verbatim>\<open>Add\<close> alone.
\<close>

definition SendTransactions :: "MsgWriter \<Rightarrow> Peer \<Rightarrow> Transaction list \<Rightarrow> Peer \<times> error option" where
  "SendTransactions wr p txs =
     (p\<lparr>knownTxs := foldl set_Add (knownTxs p) (map tx_Hash txs)\<rparr>,
      Send wr TxMsg (TxPacket txs))"

definition SendNewBlock :: "MsgWriter \<Rightarrow> Peer \<Rightarrow> Block \<Rightarrow> int option \<Rightarrow> Peer \<times> error option" where
  "SendNewBlock wr p block td0 =
     (p\<lparr>knownBlocks := set_Add (knownBlocks p) (block_Hash block)\<rparr>,
      Send wr NewBlockMsg (NewBlockPacket block td0))"

text \<open>
  The second loop of \<^verbatim>\<open>SendNewBlockHashes\<close>, from index \<open>i\<close>: \<^verbatim>\<open>request[i]\<close> and \<^verbatim>\<open>hashes[i]\<close>
  are in range by the loop condition, \<^verbatim>\<open>numbers[i]\<close> panics when it is not.
\<close>

function fill_request ::
  "hash list \<Rightarrow> 64 word list \<Rightarrow> nat \<Rightarrow> announce list \<Rightarrow> panic + announce list" where
  "fill_request hashes numbers i request =
     (if i < length hashes then
        (let request1 = request[i := (request ! i)\<lparr>Hash := hashes ! i\<rparr>]
         in if i < length numbers
            then fill_request hashes numbers (Suc i)
                   (request1[i := (request1 ! i)\<lparr>Number := numbers ! i\<rparr>])
            else Inl IndexOutOfRange)
      else Inr request)"
  by pat_completeness auto
termination
  by (relation "measure (\<lambda>(hashes, numbers, i, request). length hashes - i)") auto

declare fill_request.simps [simp del]

definition SendNewBlockHashes ::
  "MsgWriter \<Rightarrow> Peer \<Rightarrow> hash list \<Rightarrow> 64 word list \<Rightarrow> Peer \<times> (panic + error option)" where
  "SendNewBlockHashes wr p hashes numbers =
     (let p' = p\<lparr>knownBlocks := foldl set_Add (knownBlocks p) hashes\<rparr>
      in case fill_request hashes numbers 0
                (replicate (length hashes) \<lparr>Hash = 0, Number = 0\<rparr>) of
           Inl pn \<Rightarrow> (p', Inl pn)
         | Inr request \<Rightarrow>
             (p', Inr (Send wr NewBlockHashesMsg (NewBlockHashesPacket request))))"

section \<open>PeerSet\<close>

text \<open>
  \<^verbatim>\<open>peers\<close> is a Go map from the peer's id to a pointer to the peer, \<open>None\<close> for a nil
  pointer. A \<^verbatim>\<open>range\<close> over the map visits every key once, in an order Go does not fix: a
  function that ranges takes the order of the keys as \<open>order\<close>.
\<close>

record PeerSet =
  peers :: "string \<rightharpoonup> Peer option"
  closed :: bool

definition NewPeerSet :: PeerSet where
  "NewPeerSet = \<lparr> peers = Map.empty, closed = False \<rparr>"

definition Register :: "PeerSet \<Rightarrow> Peer option \<Rightarrow> PeerSet \<times> (panic + error option)" where
  "Register ps p =
     (if closed ps then (ps, Inr (Some errClosed))
      else
        (case p of
           None \<Rightarrow> (ps, Inl NilDereference)
         | Some q \<Rightarrow>
             if peers ps (peer_id q) \<noteq> None then (ps, Inr (Some errAlreadyRegistered))
             else (ps\<lparr>peers := (peers ps)(peer_id q \<mapsto> Some q)\<rparr>, Inr None)))"

definition Unregister :: "PeerSet \<Rightarrow> string \<Rightarrow> PeerSet \<times> error option" where
  "Unregister ps k =
     (if peers ps k = None then (ps, Some errNotRegistered)
      else (ps\<lparr>peers := (peers ps)(k := None)\<rparr>, None))"

definition Peer_of :: "PeerSet \<Rightarrow> string \<Rightarrow> Peer option" where
  "Peer_of ps k = (case peers ps k of None \<Rightarrow> None | Some v \<Rightarrow> v)"

definition Len :: "PeerSet \<Rightarrow> nat" where
  "Len ps = card (dom (peers ps))"

definition AllPeer :: "PeerSet \<Rightarrow> (string \<rightharpoonup> Peer option)" where
  "AllPeer ps = peers ps"

definition range_peers :: "PeerSet \<Rightarrow> string list \<Rightarrow> Peer option list" where
  "range_peers ps order = List.map_filter (peers ps) order"

fun PeersWithoutBlock_loop :: "hash \<Rightarrow> Peer option list \<Rightarrow> Peer list \<Rightarrow> panic + Peer list" where
  "PeersWithoutBlock_loop h [] list = Inr list"
| "PeersWithoutBlock_loop h (None # vs) list = Inl NilDereference"
| "PeersWithoutBlock_loop h (Some p # vs) list =
     PeersWithoutBlock_loop h vs (if \<not> set_Has (knownBlocks p) h then list @ [p] else list)"

definition PeersWithoutBlock :: "PeerSet \<Rightarrow> string list \<Rightarrow> hash \<Rightarrow> panic + Peer list" where
  "PeersWithoutBlock ps order h = PeersWithoutBlock_loop h (range_peers ps order) []"

fun PeersWithoutTx_loop :: "hash \<Rightarrow> Peer option list \<Rightarrow> Peer list \<Rightarrow> panic + Peer list" where
  "PeersWithoutTx_loop h [] list = Inr list"
| "PeersWithoutTx_loop h (None # vs) list = Inl NilDereference"
| "PeersWithoutTx_loop h (Some p # vs) list =
     PeersWithoutTx_loop h vs (if \<not> set_Has (knownTxs p) h then list @ [p] else list)"

definition PeersWithoutTx :: "PeerSet \<Rightarrow> string list \<Rightarrow> hash \<Rightarrow> panic + Peer list" where
  "PeersWithoutTx ps order h = PeersWithoutTx_loop h (range_peers ps order) []"

text \<open>\<^verbatim>\<open>x.Cmp(y)\<close> of \<^verbatim>\<open>math/big\<close> on two numbers.\<close>

definition big_Cmp :: "int \<Rightarrow> int \<Rightarrow> int" where
  "big_Cmp x y = (if x < y then - 1 else if x = y then 0 else 1)"

text \<open>
  The loop of \<^verbatim>\<open>BestPeer\<close> over the visited pointers, with its two variables. \<^verbatim>\<open>bestTd\<close> is
  set to \<^verbatim>\<open>td\<close> when it is nil, before the comparison.
\<close>

fun BestPeer_loop :: "Peer option list \<Rightarrow> Peer option \<Rightarrow> int option \<Rightarrow> Peer option" where
  "BestPeer_loop [] bestPeer bestTd = bestPeer"
| "BestPeer_loop (None # vs) bestPeer bestTd = BestPeer_loop vs bestPeer bestTd"
| "BestPeer_loop (Some p # vs) bestPeer bestTd =
     (case snd (Head p) of
        None \<Rightarrow> BestPeer_loop vs bestPeer bestTd
      | Some t \<Rightarrow>
          (let b = (case bestTd of None \<Rightarrow> t | Some b0 \<Rightarrow> b0)
           in if bestPeer = None \<or> big_Cmp t b > 0
              then BestPeer_loop vs (Some p) (Some t)
              else BestPeer_loop vs bestPeer (Some b)))"

definition BestPeer :: "PeerSet \<Rightarrow> string list \<Rightarrow> Peer option" where
  "BestPeer ps order = BestPeer_loop (range_peers ps order) None None"

text \<open>A call of an exported operation of the set, and what it returns.\<close>

datatype call =
    CallRegister "Peer option"
  | CallUnregister string
  | CallPeer string
  | CallLen
  | CallAllPeer
  | CallPeersWithoutBlock "string list" hash
  | CallPeersWithoutTx "string list" hash
  | CallBestPeer "string list"

datatype reply =
    ReplyError "panic + error option"
  | ReplyPeer "Peer option"
  | ReplyLen nat
  | ReplyMap "string \<rightharpoonup> Peer option"
  | ReplyPeers "panic + Peer list"

fun exec :: "PeerSet \<Rightarrow> call \<Rightarrow> PeerSet \<times> reply" where
  "exec ps (CallRegister p) = (fst (Register ps p), ReplyError (snd (Register ps p)))"
| "exec ps (CallUnregister k) = (fst (Unregister ps k), ReplyError (Inr (snd (Unregister ps k))))"
| "exec ps (CallPeer k) = (ps, ReplyPeer (Peer_of ps k))"
| "exec ps CallLen = (ps, ReplyLen (Len ps))"
| "exec ps CallAllPeer = (ps, ReplyMap (AllPeer ps))"
| "exec ps (CallPeersWithoutBlock order h) = (ps, ReplyPeers (PeersWithoutBlock ps order h))"
| "exec ps (CallPeersWithoutTx order h) = (ps, ReplyPeers (PeersWithoutTx ps order h))"
| "exec ps (CallBestPeer order) = (ps, ReplyPeer (BestPeer ps order))"

definition exec_all :: "call list \<Rightarrow> PeerSet" where
  "exec_all calls = foldl (\<lambda>ps c. fst (exec ps c)) NewPeerSet calls"

section \<open>The aggregator's merge loop\<close>

text \<open>The package variables of \<^verbatim>\<open>main.go\<close>.\<close>

definition startBlock :: hash where
  "startBlock = 0xdc2d938e4cd0a149681e9e04352953ef5ab399d59bcd5b0357f6c0797470a524"

definition startTD :: int where
  "startTD = 2303762395359969"

definition genesis :: hash where
  "genesis = 0xd4e56740f876aef8c010b86a40d5f56745a118d0906a34e69aec8c0db1cb8fa3"

definition gversion :: "32 word" where "gversion = 63"
definition gnetworkid :: "64 word" where "gnetworkid = 888888"

text \<open>
  Of \<^verbatim>\<open>types.Header\<close> the loop reads \<^verbatim>\<open>Number\<close>, a \<^verbatim>\<open>*big.Int\<close>. The fields of \<^verbatim>\<open>proxy\<close> are
  the ones the loop of \<^verbatim>\<open>Start\<close> writes.
\<close>

record Header =
  ParentHash :: hash
  Number_hdr :: "int option"

record bestHeiPeer =
  bestHei :: "64 word"
  from_peer :: "NodeID option"

record proxy =
  bestState :: statusData
  bestHeiAndPeer :: bestHeiPeer
  bestHeiAndPeer2 :: bestHeiPeer
  bestHeader :: Header

text \<open>The proxy as \<^verbatim>\<open>test2\<close> builds it: the fields it does not name hold zero values.\<close>

definition test2_proxy :: proxy where
  "test2_proxy =
     \<lparr> bestState = \<lparr> ProtocolVersion = gversion, NetworkId = gnetworkid, TD = Some startTD,
                      CurrentBlock = startBlock, GenesisBlock = genesis \<rparr>,
       bestHeiAndPeer = \<lparr> bestHei = 0, from_peer = None \<rparr>,
       bestHeiAndPeer2 = \<lparr> bestHei = 0, from_peer = None \<rparr>,
       bestHeader = \<lparr> ParentHash = 0, Number_hdr = None \<rparr> \<rparr>"

text \<open>\<^verbatim>\<open>x.Cmp(y)\<close> on pointers: it reads \<^verbatim>\<open>x.neg\<close> and \<^verbatim>\<open>y.neg\<close>, so a nil pointer panics.\<close>

definition Cmp :: "int option \<Rightarrow> int option \<Rightarrow> panic + int" where
  "Cmp x y =
     (case x of
        None \<Rightarrow> Inl NilDereference
      | Some a \<Rightarrow> (case y of None \<Rightarrow> Inl NilDereference | Some b \<Rightarrow> Inr (big_Cmp a b)))"

text \<open>
  What the select of the loop receives: a value from one of the four channels (\<open>None\<close>
  when the channel is closed) or one of the two tickers. Both tickers start goroutines and
  leave the fields above alone.
\<close>

datatype event =
    FromBestHeiChan "bestHeiPeer option"
  | FromBestHeiChan2 "bestHeiPeer option"
  | FromBestStateChan "statusData option"
  | FromBestHeaderChan "Header option list option"
  | Tick
  | TickPullBestBlock

fun merge_headers :: "Header \<Rightarrow> Header option list \<Rightarrow> panic + Header" where
  "merge_headers best [] = Inr best"
| "merge_headers best (None # hs) = Inl NilDereference"
| "merge_headers best (Some h # hs) =
     (case Cmp (Number_hdr h) (Number_hdr best) of
        Inl pn \<Rightarrow> Inl pn
      | Inr c \<Rightarrow> merge_headers (if c > 0 then h else best) hs)"

fun Start_step :: "proxy \<Rightarrow> event \<Rightarrow> panic + proxy" where
  "Start_step pxy (FromBestHeiChan None) = Inr pxy"
| "Start_step pxy (FromBestHeiChan (Some hei)) =
     Inr (if bestHei hei > bestHei (bestHeiAndPeer pxy) then pxy\<lparr>bestHeiAndPeer := hei\<rparr> else pxy)"
| "Start_step pxy (FromBestHeiChan2 None) = Inr pxy"
| "Start_step pxy (FromBestHeiChan2 (Some hei)) =
     Inr (if bestHei hei > bestHei (bestHeiAndPeer2 pxy) then pxy\<lparr>bestHeiAndPeer2 := hei\<rparr> else pxy)"
| "Start_step pxy (FromBestStateChan None) = Inr pxy"
| "Start_step pxy (FromBestStateChan (Some beststate)) =
     (case Cmp (TD beststate) (TD (bestState pxy)) of
        Inl pn \<Rightarrow> Inl pn
      | Inr c \<Rightarrow>
          Inr (if c > 0 \<and> Hex (GenesisBlock beststate) = Hex genesis
               then pxy\<lparr>bestState := beststate\<rparr> else pxy))"
| "Start_step pxy (FromBestHeaderChan None) = Inr pxy"
| "Start_step pxy (FromBestHeaderChan (Some bestheaders)) =
     (case merge_headers (bestHeader pxy) bestheaders of
        Inl pn \<Rightarrow> Inl pn
      | Inr h \<Rightarrow> Inr (pxy\<lparr>bestHeader := h\<rparr>))"
| "Start_step pxy Tick = Inr pxy"
| "Start_step pxy TickPullBestBlock = Inr pxy"

text \<open>
  The loop on a list of events: the state after the last step that completed, and the
  panic that ended the loop if one did.
\<close>

fun Start_loop :: "proxy \<Rightarrow> event list \<Rightarrow> proxy \<times> panic option" where
  "Start_loop pxy [] = (pxy, None)"
| "Start_loop pxy (ev # evs) =
     (case Start_step pxy ev of
        Inl pn \<Rightarrow> (pxy, Some pn)
      | Inr pxy' \<Rightarrow> Start_loop pxy' evs)"

section \<open>Sample values\<close>

text \<open>
  A status a remote peer may send, peers with a given node id and total difficulty, sets of
  such peers, and chain-state observations: the inputs at which the theorems below are
  instantiated.
\<close>

definition remote_status :: statusData where
  "remote_status =
     \<lparr> ProtocolVersion = 63, NetworkId = 1, TD = Some 100, CurrentBlock = 5, GenesisBlock = 7 \<rparr>"

definition peer_with :: "NodeID \<Rightarrow> int option \<Rightarrow> Peer" where
  "peer_with nid t = (NewPeer 63 nid)\<lparr>td := t\<rparr>"

definition two_tied :: PeerSet where
  "two_tied =
     fst (Register (fst (Register NewPeerSet (Some (peer_with 1 (Some 5)))))
            (Some (peer_with 2 (Some 5))))"

definition four_peers :: PeerSet where
  "four_peers =
     \<lparr> peers = [peer_id (peer_with 1 (Some 5)) \<mapsto> Some (peer_with 1 (Some 5)),
                 peer_id (peer_with 2 (Some 9)) \<mapsto> Some (peer_with 2 (Some 9)),
                 peer_id (peer_with 3 (Some 3)) \<mapsto> Some (peer_with 3 (Some 3)),
                 peer_id (peer_with 4 None) \<mapsto> Some (peer_with 4 None)],
       closed = False \<rparr>"

definition four_order :: "string list" where
  "four_order =
     [peer_id (peer_with 3 (Some 3)), peer_id (peer_with 4 None),
      peer_id (peer_with 2 (Some 9)), peer_id (peer_with 1 (Some 5))]"



section \<open>Properties of Peer\<close>

subsection \<open>Head of a new peer\<close>

lemma Head_td: "snd (Head p) = td p"
  by (simp add: Head_def split: option.split)

text \<open>
  Claim C6, as stated, asks \<^verbatim>\<open>Head\<close> to return a null difficulty for a peer fresh from
  \<^verbatim>\<open>NewPeer\<close>. \<^verbatim>\<open>NewPeer\<close> sets \<^verbatim>\<open>td\<close> to \<^verbatim>\<open>big.NewInt(0)\<close>, so \<^verbatim>\<open>Head\<close> returns zero, which
  is not null.
\<close>

theorem C6_fresh_peer_head_counterexample:
  "snd (Head (NewPeer 63 1)) = Some 0 \<and> snd (Head (NewPeer 63 1)) \<noteq> None"
  by (simp add: Head_def NewPeer_def)

text \<open>
  Claim C6, amended: for a peer fresh from \<^verbatim>\<open>NewPeer\<close>, \<^verbatim>\<open>Head\<close> returns the zero hash and
  the total difficulty zero; \<^verbatim>\<open>Head\<close> returns a null difficulty exactly for a peer whose
  \<^verbatim>\<open>td\<close> field is nil.
\<close>

theorem C6_head_of_new_peer:
  "Head (NewPeer v nid) = (0, Some 0) \<and> ((snd (Head p) = None) = (td p = None))"
  by (simp add: Head_def NewPeer_def split: option.split)

subsection \<open>Validation of the received status\<close>

lemma max_size: "unat ProtocolMaxMsgSize = 10485760"
  by (simp add: ProtocolMaxMsgSize_def)

text \<open>
  Claim C3: for a message that was read, \<^verbatim>\<open>readStatus\<close> checks in this order, and the first
  check that fails gives the error: the code is not the status code (\<^verbatim>\<open>ErrNoStatusMsg\<close>),
  the size is above 10 MiB (\<^verbatim>\<open>ErrMsgTooLarge\<close>), the payload does not decode (\<^verbatim>\<open>ErrDecode\<close>),
  the genesis differs (\<^verbatim>\<open>ErrGenesisBlockMismatch\<close>), the network id differs
  (\<^verbatim>\<open>ErrNetworkIdMismatch\<close>), the version differs from the peer's
  (\<^verbatim>\<open>ErrProtocolVersionMismatch\<close>); a status that passes all of them gives no error.
\<close>

theorem C3_readStatus_order:
  "(Code m \<noteq> 0 \<longrightarrow>
      snd (readStatus p (Inr m) network st gen) = Some (errResp ErrNoStatusMsg)) \<and>
   (Code m = 0 \<and> 10485760 < unat (Size m) \<longrightarrow>
      snd (readStatus p (Inr m) network st gen) = Some (errResp ErrMsgTooLarge)) \<and>
   (Code m = 0 \<and> unat (Size m) \<le> 10485760 \<and> Payload m = None \<longrightarrow>
      snd (readStatus p (Inr m) network st gen) = Some (errResp ErrDecode)) \<and>
   (Code m = 0 \<and> unat (Size m) \<le> 10485760 \<and> Payload m = Some s \<and> GenesisBlock s \<noteq> gen \<longrightarrow>
      snd (readStatus p (Inr m) network st gen) = Some (errResp ErrGenesisBlockMismatch)) \<and>
   (Code m = 0 \<and> unat (Size m) \<le> 10485760 \<and> Payload m = Some s \<and> GenesisBlock s = gen \<and>
    NetworkId s \<noteq> network \<longrightarrow>
      snd (readStatus p (Inr m) network st gen) = Some (errResp ErrNetworkIdMismatch)) \<and>
   (Code m = 0 \<and> unat (Size m) \<le> 10485760 \<and> Payload m = Some s \<and> GenesisBlock s = gen \<and>
    NetworkId s = network \<and> ProtocolVersion s \<noteq> version p \<longrightarrow>
      snd (readStatus p (Inr m) network st gen) = Some (errResp ErrProtocolVersionMismatch)) \<and>
   (Code m = 0 \<and> unat (Size m) \<le> 10485760 \<and> Payload m = Some s \<and> GenesisBlock s = gen \<and>
    NetworkId s = network \<and> ProtocolVersion s = version p \<longrightarrow>
      readStatus p (Inr m) network st gen = (s, None))"
  by (simp add: readStatus_def StatusMsg_def word_less_nat_alt max_size)

theorem C3_readStatus_order_witness:
  "snd (readStatus (NewPeer 63 1) (Inr \<lparr>Code = 1, Size = 20971520, Payload = None\<rparr>) 2 zero_status 8)
     = Some (errResp ErrNoStatusMsg) \<and>
   snd (readStatus (NewPeer 62 1) (Inr \<lparr>Code = 0, Size = 10485761, Payload = None\<rparr>) 2 zero_status 8)
     = Some (errResp ErrMsgTooLarge) \<and>
   snd (readStatus (NewPeer 62 1) (Inr \<lparr>Code = 0, Size = 10485760, Payload = None\<rparr>) 2 zero_status 8)
     = Some (errResp ErrDecode) \<and>
   snd (readStatus (NewPeer 62 1) (Inr \<lparr>Code = 0, Size = 80, Payload = Some remote_status\<rparr>) 2 zero_status 8)
     = Some (errResp ErrGenesisBlockMismatch) \<and>
   snd (readStatus (NewPeer 62 1) (Inr \<lparr>Code = 0, Size = 80, Payload = Some remote_status\<rparr>) 2 zero_status 7)
     = Some (errResp ErrNetworkIdMismatch) \<and>
   snd (readStatus (NewPeer 62 1) (Inr \<lparr>Code = 0, Size = 80, Payload = Some remote_status\<rparr>) 1 zero_status 7)
     = Some (errResp ErrProtocolVersionMismatch) \<and>
   readStatus (NewPeer 63 1) (Inr \<lparr>Code = 0, Size = 80, Payload = Some remote_status\<rparr>) 1 zero_status 7
     = (remote_status, None)"
  using
    C3_readStatus_order [where m = "\<lparr>Code = 1, Size = 20971520, Payload = None\<rparr>"
      and p = "NewPeer 63 1" and network = 2 and st = zero_status and gen = 8]
    C3_readStatus_order [where m = "\<lparr>Code = 0, Size = 10485761, Payload = None\<rparr>"
      and p = "NewPeer 62 1" and network = 2 and st = zero_status and gen = 8]
    C3_readStatus_order [where m = "\<lparr>Code = 0, Size = 10485760, Payload = None\<rparr>"
      and p = "NewPeer 62 1" and network = 2 and st = zero_status and gen = 8]
    C3_readStatus_order [where m = "\<lparr>Code = 0, Size = 80, Payload = Some remote_status\<rparr>"
      and p = "NewPeer 62 1" and network = 2 and st = zero_status and gen = 8 and s = remote_status]
    C3_readStatus_order [where m = "\<lparr>Code = 0, Size = 80, Payload = Some remote_status\<rparr>"
      and p = "NewPeer 62 1" and network = 2 and st = zero_status and gen = 7 and s = remote_status]
    C3_readStatus_order [where m = "\<lparr>Code = 0, Size = 80, Payload = Some remote_status\<rparr>"
      and p = "NewPeer 62 1" and network = 1 and st = zero_status and gen = 7 and s = remote_status]
    C3_readStatus_order [where m = "\<lparr>Code = 0, Size = 80, Payload = Some remote_status\<rparr>"
      and p = "NewPeer 63 1" and network = 1 and st = zero_status and gen = 7 and s = remote_status]
  by (simp add: remote_status_def NewPeer_def)

subsection \<open>Handshake and the peer's head\<close>

text \<open>
  Claim C4: when \<^verbatim>\<open>Handshake\<close> returns no error, a status message was read and decoded and
  the peer's total difficulty and head are the ones it carries; when it returns an error,
  the peer is as it was.
\<close>

theorem C4_handshake_head_td:
  "Handshake p network td0 head0 gen wr rd order timer = (p', res) \<Longrightarrow>
     (res = None \<longrightarrow>
        (\<exists>m s. rd = Inr m \<and> Payload m = Some s \<and>
               p' = p\<lparr>td := TD s, head := CurrentBlock s\<rparr>)) \<and>
     (res \<noteq> None \<longrightarrow> p' = p)"
  by (cases order; cases rd; cases timer; cases "timer - 1")
     (auto simp: Handshake_def readStatus_def Let_def Send_def
           split: option.splits if_splits)

theorem C4_handshake_head_td_witness:
  "Handshake (NewPeer 63 1) 1 (Some 0) 0 7 (\<lambda>c d. None)
       (Inr \<lparr>Code = 0, Size = 80, Payload = Some remote_status\<rparr>) ReadFirst 2
     = ((NewPeer 63 1)\<lparr>td := Some 100, head := 5\<rparr>, None) \<and>
   Handshake (NewPeer 63 1) 1 (Some 0) 0 8 (\<lambda>c d. None)
       (Inr \<lparr>Code = 0, Size = 80, Payload = Some remote_status\<rparr>) SendFirst 2
     = (NewPeer 63 1, Some (errResp ErrGenesisBlockMismatch)) \<and>
   Handshake (NewPeer 63 1) 1 (Some 0) 0 7 (\<lambda>c d. None)
       (Inr \<lparr>Code = 0, Size = 80, Payload = Some remote_status\<rparr>) SendFirst 1
     = (NewPeer 63 1, Some DiscReadTimeout)"
proof -
  let ?rd = "Inr \<lparr>Code = 0, Size = 80, Payload = Some remote_status\<rparr> :: error + Msg"
  let ?wr = "\<lambda>(c::64 word) (d::packet). None :: error option"
  obtain p1 r1 where h1: "Handshake (NewPeer 63 1) 1 (Some 0) 0 7 ?wr ?rd ReadFirst 2 = (p1, r1)"
    by (cases "Handshake (NewPeer 63 1) 1 (Some 0) 0 7 ?wr ?rd ReadFirst 2") auto
  have ok: "r1 = None"
    using h1
    by (simp add: Handshake_def readStatus_def Send_def StatusMsg_def ProtocolMaxMsgSize_def
          remote_status_def NewPeer_def)
  from C4_handshake_head_td [OF h1] ok
  have "p1 = (NewPeer 63 1)\<lparr>td := Some 100, head := 5\<rparr>"
    by (auto simp: remote_status_def)
  with h1 ok have a: "Handshake (NewPeer 63 1) 1 (Some 0) 0 7 ?wr ?rd ReadFirst 2
     = ((NewPeer 63 1)\<lparr>td := Some 100, head := 5\<rparr>, None)" by simp
  obtain p2 r2 where h2: "Handshake (NewPeer 63 1) 1 (Some 0) 0 8 ?wr ?rd SendFirst 2 = (p2, r2)"
    by (cases "Handshake (NewPeer 63 1) 1 (Some 0) 0 8 ?wr ?rd SendFirst 2") auto
  have bad: "r2 = Some (errResp ErrGenesisBlockMismatch)"
    using h2
    by (simp add: Handshake_def readStatus_def Send_def StatusMsg_def ProtocolMaxMsgSize_def
          remote_status_def NewPeer_def)
  from C4_handshake_head_td [OF h2] bad have "p2 = NewPeer 63 1" by simp
  with h2 bad have b: "Handshake (NewPeer 63 1) 1 (Some 0) 0 8 ?wr ?rd SendFirst 2
     = (NewPeer 63 1, Some (errResp ErrGenesisBlockMismatch))" by simp
  obtain p3 r3 where h3: "Handshake (NewPeer 63 1) 1 (Some 0) 0 7 ?wr ?rd SendFirst 1 = (p3, r3)"
    by (cases "Handshake (NewPeer 63 1) 1 (Some 0) 0 7 ?wr ?rd SendFirst 1") auto
  have late: "r3 = Some DiscReadTimeout"
    using h3
    by (simp add: Handshake_def readStatus_def Send_def StatusMsg_def ProtocolMaxMsgSize_def
          remote_status_def NewPeer_def)
  from C4_handshake_head_td [OF h3] late have "p3 = NewPeer 63 1" by simp
  with h3 late have c: "Handshake (NewPeer 63 1) 1 (Some 0) 0 7 ?wr ?rd SendFirst 1
     = (NewPeer 63 1, Some DiscReadTimeout)" by simp
  from a b c show ?thesis by simp
qed

subsection \<open>The bound on the known-hash sets\<close>

lemma foldl_set_Add_distinct:
  "distinct (s @ hs) \<Longrightarrow> foldl set_Add s hs = s @ hs"
  by (induction hs arbitrary: s) (auto simp: set_Add_def)

lemma distinct_small_hashes:
  assumes "n \<le> 2 ^ 256"
  shows "distinct (map word_of_nat [0..<n] :: hash list)"
proof -
  have "inj_on (word_of_nat :: nat \<Rightarrow> hash) {0..<n}"
  proof (rule inj_onI)
    fix x y assume x: "x \<in> {0..<n}" and y: "y \<in> {0..<n}"
      and eq: "(word_of_nat x :: hash) = word_of_nat y"
    from eq have "unat (word_of_nat x :: hash) = unat (word_of_nat y :: hash)" by simp
    then have "x mod 2 ^ 256 = y mod 2 ^ 256" by (simp add: unat_of_nat)
    moreover from x assms have "x < 2 ^ 256" by simp
    moreover from y assms have "y < 2 ^ 256" by simp
    ultimately show "x = y" by simp
  qed
  then show ?thesis by (simp add: distinct_map)
qed

lemma MarkBlock_evict_size: "set_Size (MarkBlock_evict pick s) < maxKnownBlocks"
proof (induction pick s rule: MarkBlock_evict.induct)
  case (1 pick s)
  show ?case
  proof (cases "maxKnownBlocks \<le> set_Size s")
    case True
    with "1.IH" show ?thesis by (subst MarkBlock_evict.simps) simp
  next
    case False
    then show ?thesis by (subst MarkBlock_evict.simps) simp
  qed
qed

lemma MarkTransaction_evict_size: "set_Size (MarkTransaction_evict pick s) < maxKnownTxs"
proof (induction pick s rule: MarkTransaction_evict.induct)
  case (1 pick s)
  show ?case
  proof (cases "maxKnownTxs \<le> set_Size s")
    case True
    with "1.IH" show ?thesis by (subst MarkTransaction_evict.simps) simp
  next
    case False
    then show ?thesis by (subst MarkTransaction_evict.simps) simp
  qed
qed

lemma set_Add_size: "set_Size (set_Add s h) \<le> Suc (set_Size s)"
  by (simp add: set_Add_def set_Size_def)

lemma MarkBlock_bounded: "set_Size (knownBlocks (MarkBlock pick p h)) \<le> maxKnownBlocks"
  using MarkBlock_evict_size [of pick "knownBlocks p"]
    set_Add_size [of "MarkBlock_evict pick (knownBlocks p)" h]
  by (simp add: MarkBlock_def)

lemma MarkTransaction_bounded: "set_Size (knownTxs (MarkTransaction pick p h)) \<le> maxKnownTxs"
  using MarkTransaction_evict_size [of pick "knownTxs p"]
    set_Add_size [of "MarkTransaction_evict pick (knownTxs p)" h]
  by (simp add: MarkTransaction_def)

lemma MarkBlock_evicts_when_full:
  "maxKnownBlocks \<le> set_Size (knownBlocks p) \<Longrightarrow>
     set_Size (MarkBlock_evict pick (knownBlocks p)) < set_Size (knownBlocks p)"
  using MarkBlock_evict_size [of pick "knownBlocks p"] by simp

lemma SendNewBlockHashes_peer:
  "fst (SendNewBlockHashes wr p hashes numbers) =
     p\<lparr>knownBlocks := foldl set_Add (knownBlocks p) hashes\<rparr>"
  by (simp add: SendNewBlockHashes_def Let_def split: sum.split)

lemma SendNewBlockHashes_grows:
  assumes "n \<le> 2 ^ 256"
  shows "set_Size (knownBlocks (fst (SendNewBlockHashes wr (NewPeer v nid)
            (map word_of_nat [0..<n]) numbers))) = n"
proof -
  have "distinct (map word_of_nat [0..<n] :: hash list)"
    using assms by (rule distinct_small_hashes)
  then have "foldl set_Add [] (map word_of_nat [0..<n] :: hash list) = map word_of_nat [0..<n]"
    using foldl_set_Add_distinct [of "[]" "map word_of_nat [0..<n]"] by simp
  then show ?thesis
    by (simp add: SendNewBlockHashes_peer NewPeer_def set_New_def set_Size_def)
qed

lemma SendTransactions_grows:
  assumes "n \<le> 2 ^ 256"
  shows "set_Size (knownTxs (fst (SendTransactions wr (NewPeer v nid)
            (map (\<lambda>k. \<lparr>tx_Hash = word_of_nat k\<rparr>) [0..<n])))) = n"
proof -
  have "distinct (map word_of_nat [0..<n] :: hash list)"
    using assms by (rule distinct_small_hashes)
  then have "foldl set_Add [] (map word_of_nat [0..<n] :: hash list) = map word_of_nat [0..<n]"
    using foldl_set_Add_distinct [of "[]" "map word_of_nat [0..<n]"] by simp
  then show ?thesis
    by (simp add: SendTransactions_def NewPeer_def set_New_def set_Size_def comp_def)
qed

text \<open>
  Claim C1 says that the known sets never exceed 1024 block hashes and 32768 transaction
  hashes under any sequence of \<^verbatim>\<open>MarkBlock\<close>, \<^verbatim>\<open>MarkTransaction\<close>, \<^verbatim>\<open>SendTransactions\<close>,
  \<^verbatim>\<open>SendNewBlockHashes\<close> and \<^verbatim>\<open>SendNewBlock\<close>. The two markers keep the bound (the lemmas
  above); the senders add without evicting. Here a new peer is sent 1025 distinct block
  hashes in one announcement, and 32769 distinct transactions in one message: the sets
  end above their maximum.
\<close>

theorem C1_senders_exceed_bound:
  "maxKnownBlocks <
     set_Size (knownBlocks (fst (SendNewBlockHashes (\<lambda>c d. None) (NewPeer 63 1)
       (map word_of_nat [0..<1025]) (replicate 1025 0)))) \<and>
   maxKnownTxs <
     set_Size (knownTxs (fst (SendTransactions (\<lambda>c d. None) (NewPeer 63 1)
       (map (\<lambda>k. \<lparr>tx_Hash = word_of_nat k\<rparr>) [0..<32769]))))"
proof (rule conjI)
  have "set_Size (knownBlocks (fst (SendNewBlockHashes (\<lambda>c d. None) (NewPeer 63 1)
       (map word_of_nat [0..<1025]) (replicate 1025 0)))) = 1025"
    by (rule SendNewBlockHashes_grows) simp
  moreover have "maxKnownBlocks < 1025" by (simp add: maxKnownBlocks_def)
  ultimately show "maxKnownBlocks <
     set_Size (knownBlocks (fst (SendNewBlockHashes (\<lambda>c d. None) (NewPeer 63 1)
       (map word_of_nat [0..<1025]) (replicate 1025 0))))"
    by (simp only:)
next
  have "set_Size (knownTxs (fst (SendTransactions (\<lambda>c d. None) (NewPeer 63 1)
       (map (\<lambda>k. \<lparr>tx_Hash = word_of_nat k\<rparr>) [0..<32769])))) = 32769"
    by (rule SendTransactions_grows) simp
  moreover have "maxKnownTxs < 32769" by (simp add: maxKnownTxs_def)
  ultimately show "maxKnownTxs <
     set_Size (knownTxs (fst (SendTransactions (\<lambda>c d. None) (NewPeer 63 1)
       (map (\<lambda>k. \<lparr>tx_Hash = word_of_nat k\<rparr>) [0..<32769]))))"
    by (simp only:)
qed

subsection \<open>Indexing in SendNewBlockHashes\<close>

lemma fill_request_ok:
  "i \<le> length hashes \<Longrightarrow> length hashes \<le> length numbers \<Longrightarrow> length request = length hashes \<Longrightarrow>
     fill_request hashes numbers i request =
       Inr (take i request @ map2 (\<lambda>h n. \<lparr>Hash = h, Number = n\<rparr>) (drop i hashes) (drop i numbers))"
proof (induction hashes numbers i request rule: fill_request.induct)
  case (1 hashes numbers i request)
  show ?case
  proof (cases "i < length hashes")
    case False
    with "1.prems" show ?thesis by (subst fill_request.simps) simp
  next
    case True
    let ?r1 = "request[i := (request ! i)\<lparr>Hash := hashes ! i\<rparr>]"
    let ?r2 = "?r1[i := (?r1 ! i)\<lparr>Number := numbers ! i\<rparr>]"
    from True "1.prems" have inb: "i < length numbers" by simp
    have step: "fill_request hashes numbers i request = fill_request hashes numbers (Suc i) ?r2"
      using True inb by (subst fill_request.simps) (simp add: Let_def)
    have ih: "fill_request hashes numbers (Suc i) ?r2 =
       Inr (take (Suc i) ?r2 @ map2 (\<lambda>h n. \<lparr>Hash = h, Number = n\<rparr>) (drop (Suc i) hashes) (drop (Suc i) numbers))"
      using "1.IH" [OF True refl inb] True "1.prems" by simp
    have t: "take (Suc i) ?r2 = take i request @ [\<lparr>Hash = hashes ! i, Number = numbers ! i\<rparr>]"
      using True "1.prems" by (simp add: take_Suc_conv_app_nth)
    have d1: "drop i hashes = hashes ! i # drop (Suc i) hashes"
      using True by (simp add: Cons_nth_drop_Suc)
    have d2: "drop i numbers = numbers ! i # drop (Suc i) numbers"
      using inb by (simp add: Cons_nth_drop_Suc)
    show ?thesis unfolding step ih t d1 d2 by simp
  qed
qed

lemma fill_request_panics:
  "length numbers < length hashes \<Longrightarrow> i \<le> length numbers \<Longrightarrow>
     fill_request hashes numbers i request = Inl IndexOutOfRange"
proof (induction hashes numbers i request rule: fill_request.induct)
  case (1 hashes numbers i request)
  show ?case
  proof (cases "i < length numbers")
    case True
    with "1.prems" have lt: "i < length hashes" by simp
    from "1.IH" [OF lt refl True] "1.prems" True
    show ?thesis by (subst fill_request.simps) (simp add: Let_def lt)
  next
    case False
    with "1.prems" show ?thesis by (subst fill_request.simps) (simp add: Let_def)
  qed
qed

text \<open>
  Claim C9: when \<^verbatim>\<open>numbers\<close> is at least as long as \<^verbatim>\<open>hashes\<close>, \<^verbatim>\<open>SendNewBlockHashes\<close> does
  not panic, marks every hash, and hands to \<^verbatim>\<open>p2p.Send\<close> the announcement whose \<open>i\<close>-th
  entry is \<^verbatim>\<open>hashes[i]\<close> with \<^verbatim>\<open>numbers[i]\<close>, for every \<open>i\<close> below the length of \<^verbatim>\<open>hashes\<close>;
  when \<^verbatim>\<open>numbers\<close> is shorter it panics with an index out of range.
\<close>

theorem C9_SendNewBlockHashes_indexing:
  "(length hashes \<le> length numbers \<longrightarrow>
      SendNewBlockHashes wr p hashes numbers =
        (p\<lparr>knownBlocks := foldl set_Add (knownBlocks p) hashes\<rparr>,
         Inr (wr NewBlockHashesMsg
               (NewBlockHashesPacket
                  (map (\<lambda>i. \<lparr>Hash = hashes ! i, Number = numbers ! i\<rparr>) [0..<length hashes]))))) \<and>
   (length numbers < length hashes \<longrightarrow>
      snd (SendNewBlockHashes wr p hashes numbers) = Inl IndexOutOfRange)"
proof (intro conjI impI)
  assume le: "length hashes \<le> length numbers"
  have z: "map2 (\<lambda>h n. \<lparr>Hash = h, Number = n\<rparr>) hashes numbers
        = map (\<lambda>i. \<lparr>Hash = hashes ! i, Number = numbers ! i\<rparr>) [0..<length hashes]"
    using le by (intro nth_equalityI) auto
  show "SendNewBlockHashes wr p hashes numbers =
        (p\<lparr>knownBlocks := foldl set_Add (knownBlocks p) hashes\<rparr>,
         Inr (wr NewBlockHashesMsg
               (NewBlockHashesPacket
                  (map (\<lambda>i. \<lparr>Hash = hashes ! i, Number = numbers ! i\<rparr>) [0..<length hashes]))))"
    using fill_request_ok [of 0 hashes numbers "replicate (length hashes) \<lparr>Hash = 0, Number = 0\<rparr>"] le z
    by (simp add: SendNewBlockHashes_def Send_def)
next
  assume "length numbers < length hashes"
  then show "snd (SendNewBlockHashes wr p hashes numbers) = Inl IndexOutOfRange"
    using fill_request_panics [of numbers hashes 0]
    by (simp add: SendNewBlockHashes_def)
qed

theorem C9_SendNewBlockHashes_indexing_witness:
  "SendNewBlockHashes
     (\<lambda>c d. if c = 1 \<and> d = NewBlockHashesPacket [\<lparr>Hash = 5, Number = 10\<rparr>, \<lparr>Hash = 6, Number = 11\<rparr>]
             then None else Some (TransportError 0))
     (NewPeer 63 1) [5, 6] [10, 11, 12]
     = ((NewPeer 63 1)\<lparr>knownBlocks := [5, 6]\<rparr>, Inr None) \<and>
   snd (SendNewBlockHashes (\<lambda>c d. None) (NewPeer 63 1) [5, 6] [10]) = Inl IndexOutOfRange"
proof -
  have le: "length [5, 6 :: hash] \<le> length [10, 11, 12 :: 64 word]" by simp
  have lt: "length [10 :: 64 word] < length [5, 6 :: hash]" by simp
  have u: "[0..<length [5, 6 :: hash]] = [0, 1]" by (simp add: upt_rec)
  from C9_SendNewBlockHashes_indexing [of "[5, 6]" "[10, 11, 12]", THEN conjunct1, THEN mp, OF le]
    C9_SendNewBlockHashes_indexing [of "[5, 6]" "[10]", THEN conjunct2, THEN mp, OF lt]
  show ?thesis
    unfolding u by (simp add: set_Add_def NewPeer_def set_New_def NewBlockHashesMsg_def)
qed

section \<open>Properties of PeerSet\<close>

subsection \<open>The loop of BestPeer\<close>

lemma big_Cmp_pos: "(0 < big_Cmp x y) = (y < x)"
  by (simp add: big_Cmp_def)

lemma BestPeer_loop_acc:
  "td b = Some tb \<Longrightarrow> BestPeer_loop vs (Some b) (Some tb) = Some q \<Longrightarrow>
     (q = b \<and> (\<forall>r u. Some r \<in> set vs \<and> td r = Some u \<longrightarrow> u \<le> tb)) \<or>
     (\<exists>pre post t. vs = pre @ Some q # post \<and> td q = Some t \<and> tb < t \<and>
        (\<forall>r u. Some r \<in> set pre \<and> td r = Some u \<longrightarrow> u < t) \<and>
        (\<forall>r u. Some r \<in> set post \<and> td r = Some u \<longrightarrow> u \<le> t))"
proof (induction vs arbitrary: b tb)
  case Nil
  then show ?case by simp
next
  case (Cons v vs)
  show ?case
  proof (cases v)
    case None
    with Cons.prems have "BestPeer_loop vs (Some b) (Some tb) = Some q" by simp
    from Cons.IH [OF Cons.prems(1) this] show ?thesis
    proof (elim disjE exE conjE)
      assume "q = b" "\<forall>r u. Some r \<in> set vs \<and> td r = Some u \<longrightarrow> u \<le> tb"
      with None show ?thesis by auto
    next
      fix pre post t
      assume "vs = pre @ Some q # post" "td q = Some t" "tb < t"
        "\<forall>r u. Some r \<in> set pre \<and> td r = Some u \<longrightarrow> u < t"
        "\<forall>r u. Some r \<in> set post \<and> td r = Some u \<longrightarrow> u \<le> t"
      then have "v # vs = (v # pre) @ Some q # post \<and> td q = Some t \<and> tb < t \<and>
        (\<forall>r u. Some r \<in> set (v # pre) \<and> td r = Some u \<longrightarrow> u < t) \<and>
        (\<forall>r u. Some r \<in> set post \<and> td r = Some u \<longrightarrow> u \<le> t)"
        using None by auto
      then show ?thesis by blast
    qed
  next
    case (Some p)
    show ?thesis
    proof (cases "td p")
      case None
      with Some Cons.prems have "BestPeer_loop vs (Some b) (Some tb) = Some q"
        by (simp add: Head_td)
      from Cons.IH [OF Cons.prems(1) this] show ?thesis
      proof (elim disjE exE conjE)
        assume "q = b" "\<forall>r u. Some r \<in> set vs \<and> td r = Some u \<longrightarrow> u \<le> tb"
        with None Some show ?thesis by auto
      next
        fix pre post t
        assume "vs = pre @ Some q # post" "td q = Some t" "tb < t"
          "\<forall>r u. Some r \<in> set pre \<and> td r = Some u \<longrightarrow> u < t"
          "\<forall>r u. Some r \<in> set post \<and> td r = Some u \<longrightarrow> u \<le> t"
        then have "v # vs = (v # pre) @ Some q # post \<and> td q = Some t \<and> tb < t \<and>
          (\<forall>r u. Some r \<in> set (v # pre) \<and> td r = Some u \<longrightarrow> u < t) \<and>
          (\<forall>r u. Some r \<in> set post \<and> td r = Some u \<longrightarrow> u \<le> t)"
          using None Some by auto
        then show ?thesis by blast
      qed
    next
      case (Some u0)
      note tdp = this
      show ?thesis
      proof (cases "tb < u0")
        case True
        with tdp \<open>v = Some p\<close> Cons.prems have run: "BestPeer_loop vs (Some p) (Some u0) = Some q"
          by (simp add: Head_td big_Cmp_pos)
        from Cons.IH [OF tdp run] show ?thesis
        proof (elim disjE exE conjE)
          assume "q = p" "\<forall>r u. Some r \<in> set vs \<and> td r = Some u \<longrightarrow> u \<le> u0"
          then have "v # vs = [] @ Some q # vs \<and> td q = Some u0 \<and> tb < u0 \<and>
            (\<forall>r u. Some r \<in> set [] \<and> td r = Some u \<longrightarrow> u < u0) \<and>
            (\<forall>r u. Some r \<in> set vs \<and> td r = Some u \<longrightarrow> u \<le> u0)"
            using tdp \<open>v = Some p\<close> True by auto
          then show ?thesis by blast
        next
          fix pre post t
          assume "vs = pre @ Some q # post" "td q = Some t" "u0 < t"
            "\<forall>r u. Some r \<in> set pre \<and> td r = Some u \<longrightarrow> u < t"
            "\<forall>r u. Some r \<in> set post \<and> td r = Some u \<longrightarrow> u \<le> t"
          then have "v # vs = (v # pre) @ Some q # post \<and> td q = Some t \<and> tb < t \<and>
            (\<forall>r u. Some r \<in> set (v # pre) \<and> td r = Some u \<longrightarrow> u < t) \<and>
            (\<forall>r u. Some r \<in> set post \<and> td r = Some u \<longrightarrow> u \<le> t)"
            using tdp \<open>v = Some p\<close> True by auto
          then show ?thesis by blast
        qed
      next
        case False
        with tdp \<open>v = Some p\<close> Cons.prems have run: "BestPeer_loop vs (Some b) (Some tb) = Some q"
          by (simp add: Head_td big_Cmp_pos)
        from Cons.IH [OF Cons.prems(1) run] show ?thesis
        proof (elim disjE exE conjE)
          assume "q = b" "\<forall>r u. Some r \<in> set vs \<and> td r = Some u \<longrightarrow> u \<le> tb"
          with tdp \<open>v = Some p\<close> False show ?thesis by auto
        next
          fix pre post t
          assume "vs = pre @ Some q # post" "td q = Some t" "tb < t"
            "\<forall>r u. Some r \<in> set pre \<and> td r = Some u \<longrightarrow> u < t"
            "\<forall>r u. Some r \<in> set post \<and> td r = Some u \<longrightarrow> u \<le> t"
          then have "v # vs = (v # pre) @ Some q # post \<and> td q = Some t \<and> tb < t \<and>
            (\<forall>r u. Some r \<in> set (v # pre) \<and> td r = Some u \<longrightarrow> u < t) \<and>
            (\<forall>r u. Some r \<in> set post \<and> td r = Some u \<longrightarrow> u \<le> t)"
            using tdp \<open>v = Some p\<close> False by auto
          then show ?thesis by blast
        qed
      qed
    qed
  qed
qed

lemma BestPeer_loop_acc_Some: "\<exists>q. BestPeer_loop vs (Some b) bt = Some q"
  by (induction vs "Some b" bt arbitrary: b rule: BestPeer_loop.induct)
     (auto simp: Let_def split: option.splits)

lemma BestPeer_loop_start:
  "BestPeer_loop vs None None = Some q \<Longrightarrow>
     \<exists>pre post t. vs = pre @ Some q # post \<and> td q = Some t \<and>
        (\<forall>r u. Some r \<in> set pre \<and> td r = Some u \<longrightarrow> u < t) \<and>
        (\<forall>r u. Some r \<in> set post \<and> td r = Some u \<longrightarrow> u \<le> t)"
proof (induction vs)
  case Nil
  then show ?case by simp
next
  case (Cons v vs)
  show ?case
  proof (cases "\<exists>p u0. v = Some p \<and> td p = Some u0")
    case False
    then have skip: "BestPeer_loop (v # vs) None None = BestPeer_loop vs None None"
      by (cases v) (auto simp: Head_td split: option.splits)
    with Cons.prems have "BestPeer_loop vs None None = Some q" by simp
    from Cons.IH [OF this] obtain pre post t where
      "vs = pre @ Some q # post" "td q = Some t"
      "\<forall>r u. Some r \<in> set pre \<and> td r = Some u \<longrightarrow> u < t"
      "\<forall>r u. Some r \<in> set post \<and> td r = Some u \<longrightarrow> u \<le> t" by blast
    then have "v # vs = (v # pre) @ Some q # post \<and> td q = Some t \<and>
        (\<forall>r u. Some r \<in> set (v # pre) \<and> td r = Some u \<longrightarrow> u < t) \<and>
        (\<forall>r u. Some r \<in> set post \<and> td r = Some u \<longrightarrow> u \<le> t)"
      using False by auto
    then show ?thesis by blast
  next
    case True
    then obtain p u0 where v: "v = Some p" and tdp: "td p = Some u0" by blast
    with Cons.prems have run: "BestPeer_loop vs (Some p) (Some u0) = Some q"
      by (simp add: Head_td)
    from BestPeer_loop_acc [OF tdp run] show ?thesis
    proof (elim disjE exE conjE)
      assume "q = p" "\<forall>r u. Some r \<in> set vs \<and> td r = Some u \<longrightarrow> u \<le> u0"
      then have "v # vs = [] @ Some q # vs \<and> td q = Some u0 \<and>
        (\<forall>r u. Some r \<in> set [] \<and> td r = Some u \<longrightarrow> u < u0) \<and>
        (\<forall>r u. Some r \<in> set vs \<and> td r = Some u \<longrightarrow> u \<le> u0)"
        using v tdp by auto
      then show ?thesis by blast
    next
      fix pre post t
      assume "vs = pre @ Some q # post" "td q = Some t" "u0 < t"
        "\<forall>r u. Some r \<in> set pre \<and> td r = Some u \<longrightarrow> u < t"
        "\<forall>r u. Some r \<in> set post \<and> td r = Some u \<longrightarrow> u \<le> t"
      then have "v # vs = (v # pre) @ Some q # post \<and> td q = Some t \<and>
        (\<forall>r u. Some r \<in> set (v # pre) \<and> td r = Some u \<longrightarrow> u < t) \<and>
        (\<forall>r u. Some r \<in> set post \<and> td r = Some u \<longrightarrow> u \<le> t)"
        using v tdp by auto
      then show ?thesis by blast
    qed
  qed
qed

lemma BestPeer_loop_None:
  "(BestPeer_loop vs None None = None) = (\<forall>p. Some p \<in> set vs \<longrightarrow> td p = None)"
proof (induction vs)
  case Nil
  then show ?case by simp
next
  case (Cons v vs)
  show ?case
  proof (cases v)
    case None
    with Cons.IH show ?thesis by simp
  next
    case (Some p)
    show ?thesis
    proof (cases "td p")
      case None
      with Some Cons.IH show ?thesis by (auto simp: Head_td)
    next
      case (Some u0)
      with \<open>v = Some p\<close> BestPeer_loop_acc_Some [of vs p "Some u0"] show ?thesis
        by (auto simp: Head_td)
    qed
  qed
qed

lemma set_range_peers:
  "set (range_peers ps order) = {v. \<exists>k \<in> set order. peers ps k = Some v}"
proof -
  have "\<And>v k. k \<in> set order \<Longrightarrow> peers ps k = Some v \<Longrightarrow>
          v \<in> (\<lambda>x. the (peers ps x)) ` {x \<in> set order. \<exists>y. peers ps x = Some y}"
    by (rule_tac x = k in image_eqI) auto
  then show ?thesis
    by (auto simp: range_peers_def List.map_filter_def)
qed

subsection \<open>Hexadecimal strings determine the bytes\<close>

lemma hexdigit_inj: "a < 16 \<Longrightarrow> b < 16 \<Longrightarrow> hexdigit a = hexdigit b \<Longrightarrow> a = b"
proof -
  assume a: "a < 16" and b: "b < 16" and eq: "hexdigit a = hexdigit b"
  from eq have "(of_char (hexdigit a) :: nat) = of_char (hexdigit b)" by simp
  with a b show "a = b" by (simp add: hexdigit_def split: if_splits)
qed

lemma hexn_inj: "hexn k a = hexn k b \<Longrightarrow> a mod 16 ^ k = b mod 16 ^ k"
proof (induction k arbitrary: a b)
  case 0
  then show ?case by simp
next
  case (Suc k)
  from Suc.prems have hi: "hexn k (a div 16) = hexn k (b div 16)"
    and lo: "hexdigit (a mod 16) = hexdigit (b mod 16)" by simp_all
  from hexdigit_inj [OF _ _ lo] have lo': "a mod 16 = b mod 16" by simp
  from Suc.IH [OF hi] have hi': "(a div 16) mod 16 ^ k = (b div 16) mod 16 ^ k" .
  have "a mod (16 * 16 ^ k) = 16 * ((a div 16) mod 16 ^ k) + a mod 16"
    by (simp add: mod_mult2_eq)
  moreover have "b mod (16 * 16 ^ k) = 16 * ((b div 16) mod 16 ^ k) + b mod 16"
    by (simp add: mod_mult2_eq)
  ultimately show ?case using lo' hi' by simp
qed

lemma hexn_inj_bounded:
  "hexn k a = hexn k b \<Longrightarrow> a < 16 ^ k \<Longrightarrow> b < 16 ^ k \<Longrightarrow> a = b"
  using hexn_inj [of k a b] by simp

lemma Hex_inj: "(Hex a = Hex b) = (a = b)"
proof
  assume "Hex a = Hex b"
  then have "hexn 64 (unat a) = hexn 64 (unat b)"
    by (simp add: Hex_def)
  moreover have "unat a < 16 ^ 64" using unsigned_less [of a] by simp
  moreover have "unat b < 16 ^ 64" using unsigned_less [of b] by simp
  ultimately have "unat a = unat b" by (rule hexn_inj_bounded)
  then show "a = b" by (simp only: word_unat_eq_iff)
qed simp

lemma NewPeer_id_inj: "(peer_id (NewPeer v a) = peer_id (NewPeer w b)) = (a = b)"
proof
  assume "peer_id (NewPeer v a) = peer_id (NewPeer w b)"
  then have "hexn 128 (unat a) = hexn 128 (unat b)"
    by (simp add: NewPeer_def)
  moreover have "unat a < 16 ^ 128" using unsigned_less [of a] by simp
  moreover have "unat b < 16 ^ 128" using unsigned_less [of b] by simp
  ultimately have "unat a = unat b" by (rule hexn_inj_bounded)
  then show "a = b" by (simp only: word_unat_eq_iff)
qed (simp add: NewPeer_def)

subsection \<open>BestPeer\<close>

lemma peer_with_id_inj: "(peer_id (peer_with a t) = peer_id (peer_with b u)) = (a = b)"
  using NewPeer_id_inj [of 63 a 63 b] by (simp add: peer_with_def)

lemma peer_with_td: "td (peer_with a t) = t"
  by (simp add: peer_with_def)

lemma two_tied_peers:
  "peers two_tied =
     [peer_id (peer_with 1 (Some 5)) \<mapsto> Some (peer_with 1 (Some 5)),
      peer_id (peer_with 2 (Some 5)) \<mapsto> Some (peer_with 2 (Some 5))]"
  by (simp add: two_tied_def Register_def NewPeerSet_def peer_with_id_inj)

text \<open>
  Claim C5, as stated, has \<^verbatim>\<open>BestPeer\<close> return a peer whose total difficulty is strictly
  greater than that of every other registered peer, with ties settled by a stable choice.
  Two registered peers both have total difficulty 5: the peer returned is not strictly
  above the other, and it is the one the map iteration visits first, so the two orders of
  visiting the same set return different peers.
\<close>

theorem C5_BestPeer_tie_counterexample:
  "BestPeer two_tied [peer_id (peer_with 1 (Some 5)), peer_id (peer_with 2 (Some 5))]
     = Some (peer_with 1 (Some 5)) \<and>
   BestPeer two_tied [peer_id (peer_with 2 (Some 5)), peer_id (peer_with 1 (Some 5))]
     = Some (peer_with 2 (Some 5)) \<and>
   peer_with 1 (Some 5) \<noteq> peer_with 2 (Some 5) \<and>
   snd (Head (peer_with 1 (Some 5))) = Some 5 \<and>
   snd (Head (peer_with 2 (Some 5))) = Some 5 \<and>
   \<not> (5 :: int) < 5 \<and>
   dom (peers two_tied) = {peer_id (peer_with 1 (Some 5)), peer_id (peer_with 2 (Some 5))}"
proof -
  have ne: "peer_with 1 (Some 5) \<noteq> peer_with 2 (Some 5)"
    using peer_with_id_inj [of 1 "Some 5" 2 "Some 5"] by auto
  show ?thesis
    using ne
    by (auto simp: BestPeer_def range_peers_def List.map_filter_def two_tied_peers
          peer_with_id_inj Head_td peer_with_td big_Cmp_pos)
qed

text \<open>
  Claim C5, amended: for every order in which the iteration visits the keys of the set,
  \<^verbatim>\<open>BestPeer\<close> returns null exactly when no registered peer is non-nil with a non-null total
  difficulty (as read via \<^verbatim>\<open>Head\<close>); otherwise it returns a registered peer whose total
  difficulty is at least that of every registered peer and strictly greater than that of
  every peer visited before it. Among peers tied at the maximum it is the first one visited.
\<close>

theorem C5_BestPeer_first_maximum:
  assumes "distinct order" and "set order = dom (peers ps)"
  shows
    "((BestPeer ps order = None) =
        (\<forall>k q. peers ps k = Some (Some q) \<longrightarrow> snd (Head q) = None)) \<and>
     (BestPeer ps order = Some q \<longrightarrow>
        (\<exists>k. peers ps k = Some (Some q)) \<and>
        (\<exists>pre post t.
            range_peers ps order = pre @ Some q # post \<and> snd (Head q) = Some t \<and>
            (\<forall>r u. Some r \<in> set pre \<and> snd (Head r) = Some u \<longrightarrow> u < t) \<and>
            (\<forall>r u. Some r \<in> set post \<and> snd (Head r) = Some u \<longrightarrow> u \<le> t) \<and>
            (\<forall>k r u. peers ps k = Some (Some r) \<and> snd (Head r) = Some u \<longrightarrow> u \<le> t)))"
proof (intro conjI impI)
  have mem: "\<And>v. (v \<in> set (range_peers ps order)) = (\<exists>k. peers ps k = Some v)"
    using assms(2) by (auto simp: set_range_peers)
  show "(BestPeer ps order = None) =
        (\<forall>k q. peers ps k = Some (Some q) \<longrightarrow> snd (Head q) = None)"
    by (simp add: BestPeer_def BestPeer_loop_None mem Head_td) blast
  assume best: "BestPeer ps order = Some q"
  then have "BestPeer_loop (range_peers ps order) None None = Some q"
    by (simp add: BestPeer_def)
  from BestPeer_loop_start [OF this] obtain pre post t where
    split: "range_peers ps order = pre @ Some q # post" and t: "td q = Some t"
    and before: "\<forall>r u. Some r \<in> set pre \<and> td r = Some u \<longrightarrow> u < t"
    and after: "\<forall>r u. Some r \<in> set post \<and> td r = Some u \<longrightarrow> u \<le> t" by blast
  from split have "Some q \<in> set (range_peers ps order)" by simp
  then show "\<exists>k. peers ps k = Some (Some q)" by (simp add: mem)
  have all: "\<forall>k r u. peers ps k = Some (Some r) \<and> snd (Head r) = Some u \<longrightarrow> u \<le> t"
  proof (intro allI impI)
    fix k r u assume a: "peers ps k = Some (Some r) \<and> snd (Head r) = Some u"
    then have "Some r \<in> set (range_peers ps order)" by (auto simp: mem)
    with split have "Some r \<in> set pre \<or> r = q \<or> Some r \<in> set post" by auto
    moreover from a have tr: "td r = Some u" by (simp add: Head_td)
    moreover from before tr have "Some r \<in> set pre \<Longrightarrow> u < t" by blast
    moreover from after tr have "Some r \<in> set post \<Longrightarrow> u \<le> t" by blast
    ultimately show "u \<le> t" using t by fastforce
  qed
  from split t before after all
  show "\<exists>pre post t.
            range_peers ps order = pre @ Some q # post \<and> snd (Head q) = Some t \<and>
            (\<forall>r u. Some r \<in> set pre \<and> snd (Head r) = Some u \<longrightarrow> u < t) \<and>
            (\<forall>r u. Some r \<in> set post \<and> snd (Head r) = Some u \<longrightarrow> u \<le> t) \<and>
            (\<forall>k r u. peers ps k = Some (Some r) \<and> snd (Head r) = Some u \<longrightarrow> u \<le> t)"
    unfolding Head_td by blast
qed

theorem C5_BestPeer_first_maximum_witness:
  "distinct four_order \<and> set four_order = dom (peers four_peers) \<and>
   BestPeer four_peers four_order = Some (peer_with 2 (Some 9)) \<and>
   (\<exists>k. peers four_peers k = Some (Some (peer_with 2 (Some 9)))) \<and>
   BestPeer NewPeerSet [] = None"
proof -
  have d: "distinct four_order"
    by (simp add: four_order_def peer_with_id_inj)
  have s: "set four_order = dom (peers four_peers)"
    by (auto simp: four_order_def four_peers_def)
  have b: "BestPeer four_peers four_order = Some (peer_with 2 (Some 9))"
    by (simp add: BestPeer_def range_peers_def List.map_filter_def four_order_def four_peers_def
          peer_with_id_inj Head_td peer_with_td big_Cmp_pos)
  have e: "distinct ([] :: string list)" "set [] = dom (peers NewPeerSet)"
    by (simp_all add: NewPeerSet_def)
  from C5_BestPeer_first_maximum [OF d s, of "peer_with 2 (Some 9)"] b
  have "\<exists>k. peers four_peers k = Some (Some (peer_with 2 (Some 9)))" by blast
  moreover from C5_BestPeer_first_maximum [OF e, THEN conjunct1]
  have "BestPeer NewPeerSet [] = None" by (simp add: NewPeerSet_def)
  ultimately show ?thesis using d s b by simp
qed

subsection \<open>Register and Unregister\<close>




subsection \<open>The closed flag\<close>

lemma exec_closed: "closed (fst (exec ps c)) = closed ps"
  by (cases c) (auto simp: Register_def Unregister_def split: option.splits)

lemma foldl_exec_closed: "closed (foldl (\<lambda>ps c. fst (exec ps c)) ps calls) = closed ps"
  by (induction calls arbitrary: ps) (simp_all add: exec_closed)

text \<open>
  Claim C10: after any sequence of calls of the exported operations on a set from
  \<^verbatim>\<open>NewPeerSet\<close>, the closed flag is false, and \<^verbatim>\<open>Register\<close> does not return the closed error.
\<close>

theorem C10_closed_never_set:
  "closed (exec_all calls) = False \<and>
   snd (Register (exec_all calls) p) \<noteq> Inr (Some errClosed)"
proof -
  have "closed (exec_all calls) = False"
    by (simp add: exec_all_def foldl_exec_closed NewPeerSet_def)
  then show ?thesis
    by (auto simp: Register_def split: option.splits)
qed

section \<open>Properties of the merge loop\<close>

lemma Cmp_Some: "Cmp (Some a) (Some b) = Inr (big_Cmp a b)"
  by (simp add: Cmp_def)

lemma Start_step_state:
  assumes "TD (bestState pxy) = Some cur"
  shows "Start_step pxy (FromBestStateChan (Some obs)) =
     (case TD obs of
        None \<Rightarrow> Inl NilDereference
      | Some t \<Rightarrow>
          Inr (if cur < t \<and> GenesisBlock obs = genesis then pxy\<lparr>bestState := obs\<rparr> else pxy))"
  using assms by (simp add: Cmp_def big_Cmp_pos Hex_inj split: option.split)

lemma Start_step_TD:
  assumes "TD (bestState pxy) = Some a" and "Start_step pxy ev = Inr pxy'"
  shows "\<exists>b. TD (bestState pxy') = Some b \<and> a \<le> b"
proof (cases ev)
  case (FromBestStateChan x)
  show ?thesis
  proof (cases x)
    case None
    with FromBestStateChan assms show ?thesis by simp
  next
    case (Some obs)
    with FromBestStateChan assms Start_step_state [OF assms(1), of obs]
    show ?thesis by (auto split: option.splits if_splits)
  qed
next
  case (FromBestHeiChan x)
  with assms show ?thesis by (cases x) (auto split: if_splits)
next
  case (FromBestHeiChan2 x)
  with assms show ?thesis by (cases x) (auto split: if_splits)
next
  case (FromBestHeaderChan x)
  with assms show ?thesis by (cases x) (auto split: sum.splits)
next
  case Tick
  with assms show ?thesis by simp
next
  case TickPullBestBlock
  with assms show ?thesis by simp
qed

lemma Start_loop_TD:
  "TD (bestState pxy) = Some a \<Longrightarrow>
     \<exists>b. TD (bestState (fst (Start_loop pxy evs))) = Some b \<and> a \<le> b"
proof (induction evs arbitrary: pxy a)
  case Nil
  then show ?case by simp
next
  case (Cons ev evs)
  show ?case
  proof (cases "Start_step pxy ev")
    case (Inl pn)
    with Cons.prems show ?thesis by simp
  next
    case (Inr pxy')
    from Start_step_TD [OF Cons.prems Inr] obtain m where
      m: "TD (bestState pxy') = Some m" "a \<le> m" by blast
    from Cons.IH [OF m(1)] obtain b where
      "TD (bestState (fst (Start_loop pxy' evs))) = Some b" "m \<le> b" by blast
    with m Inr show ?thesis by auto
  qed
qed

lemma test2_proxy_TD:
  "\<exists>b. TD (bestState (fst (Start_loop test2_proxy evs))) = Some b \<and> startTD \<le> b"
  by (rule Start_loop_TD) (simp add: test2_proxy_def)




text \<open>
  Claim C8 says that a batch of headers updates the retained best header to the
  highest-numbered one, the first batch after startup included. The proxy of \<^verbatim>\<open>test2\<close> holds
  the zero header, whose \<^verbatim>\<open>Number\<close> is nil: on the first batch \<^verbatim>\<open>h.Number.Cmp\<close> dereferences
  it and the loop panics. Once the retained number is not nil the merge is as the claim
  says (lemma \<open>merge_headers_numbered\<close> below).
\<close>

theorem C8_first_batch_panics:
  "Start_step test2_proxy
     (FromBestHeaderChan (Some [Some \<lparr>ParentHash = 0, Number_hdr = Some 1\<rparr>])) = Inl NilDereference \<and>
   Start_loop test2_proxy
     [FromBestHeaderChan (Some [Some \<lparr>ParentHash = 0, Number_hdr = Some 1\<rparr>])]
     = (test2_proxy, Some NilDereference)"
  by (simp add: test2_proxy_def Cmp_def)

lemma merge_headers_numbered:
  assumes "Number_hdr best = Some b"
    and "\<forall>v \<in> set hs. \<exists>h n. v = Some h \<and> Number_hdr h = Some n"
  shows "\<exists>r n. merge_headers best hs = Inr r \<and> Number_hdr r = Some n \<and> b \<le> n \<and>
           (r = best \<or> Some r \<in> set hs) \<and>
           (\<forall>h m. Some h \<in> set hs \<and> Number_hdr h = Some m \<longrightarrow> m \<le> n) \<and>
           ((r = best) = (\<forall>h m. Some h \<in> set hs \<and> Number_hdr h = Some m \<longrightarrow> m \<le> b))"
  using assms
proof (induction hs arbitrary: best b)
  case Nil
  then show ?case by simp
next
  case (Cons v hs)
  from Cons.prems(2) obtain h n where v: "v = Some h" and n: "Number_hdr h = Some n" by auto
  from Cons.prems(2) have rest: "\<forall>v \<in> set hs. \<exists>h n. v = Some h \<and> Number_hdr h = Some n" by simp
  show ?case
  proof (cases "b < n")
    case True
    then have step: "merge_headers best (v # hs) = merge_headers h hs"
      using v n Cons.prems(1) by (simp add: Cmp_Some big_Cmp_pos)
    from Cons.IH [OF n rest] obtain r k where
      r: "merge_headers h hs = Inr r" "Number_hdr r = Some k" "n \<le> k"
         "r = h \<or> Some r \<in> set hs"
         "\<forall>h m. Some h \<in> set hs \<and> Number_hdr h = Some m \<longrightarrow> m \<le> k"
      by blast
    have ne: "r \<noteq> best" using r(2,3) True Cons.prems(1) by auto
    have ex: "\<not> (\<forall>h m. Some h \<in> set (v # hs) \<and> Number_hdr h = Some m \<longrightarrow> m \<le> b)"
      using v n True by auto
    have "merge_headers best (v # hs) = Inr r \<and> Number_hdr r = Some k \<and> b \<le> k \<and>
           (r = best \<or> Some r \<in> set (v # hs)) \<and>
           (\<forall>h m. Some h \<in> set (v # hs) \<and> Number_hdr h = Some m \<longrightarrow> m \<le> k) \<and>
           ((r = best) = (\<forall>h m. Some h \<in> set (v # hs) \<and> Number_hdr h = Some m \<longrightarrow> m \<le> b))"
      using step r True v n ne ex by auto
    then show ?thesis by blast
  next
    case False
    then have step: "merge_headers best (v # hs) = merge_headers best hs"
      using v n Cons.prems(1) by (simp add: Cmp_Some big_Cmp_pos)
    from Cons.IH [OF Cons.prems(1) rest] obtain r k where
      r: "merge_headers best hs = Inr r" "Number_hdr r = Some k" "b \<le> k"
         "r = best \<or> Some r \<in> set hs"
         "\<forall>h m. Some h \<in> set hs \<and> Number_hdr h = Some m \<longrightarrow> m \<le> k"
         "(r = best) = (\<forall>h m. Some h \<in> set hs \<and> Number_hdr h = Some m \<longrightarrow> m \<le> b)"
      by blast
    have "merge_headers best (v # hs) = Inr r \<and> Number_hdr r = Some k \<and> b \<le> k \<and>
           (r = best \<or> Some r \<in> set (v # hs)) \<and>
           (\<forall>h m. Some h \<in> set (v # hs) \<and> Number_hdr h = Some m \<longrightarrow> m \<le> k) \<and>
           ((r = best) = (\<forall>h m. Some h \<in> set (v # hs) \<and> Number_hdr h = Some m \<longrightarrow> m \<le> b))"
      using step r False v n by auto
    then show ?thesis by blast
  qed
qed

end
